theory Spec2Isabelle
  imports Main
begin

section \<open>The ordered map (envmap.go)\<close>

text \<open>
  A Go string is a sequence of bytes; it is modelled as \<open>string\<close> (a list of 8-bit
  characters). A Go \<open>int\<close> that holds a position is an \<open>int\<close> where the code lets it
  be negative (arguments and returned positions) and a \<open>nat\<close> where it is an index stored
  in the key table, which is only ever written from a loop index or a length.

  A run-time panic (an index out of range) is the error \<open>IndexOutOfRange\<close>. Every
  operation returns its result together with the map as the call leaves it; all panics of
  these operations happen before the first assignment to the map, so a panicking call
  leaves the map as it found it.
\<close>

datatype error = IndexOutOfRange | ZeroLengthString | CantSeparate

record Pair =
  Key :: string
  Val :: string

record EnvMap =
  entries :: "Pair list"
  keys :: "string \<rightharpoonup> nat"

definition NewEnvMap :: EnvMap where
  "NewEnvMap = \<lparr>entries = [], keys = Map.empty\<rparr>"

definition Len :: "EnvMap \<Rightarrow> int" where
  "Len m = int (length (entries m))"

text \<open>The loop \<open>for ix, pair := range m.entries { m.keys[pair.Key] = ix }\<close> on a fresh table.\<close>

fun rebuildFrom :: "nat \<Rightarrow> Pair list \<Rightarrow> (string \<rightharpoonup> nat) \<Rightarrow> (string \<rightharpoonup> nat)" where
  "rebuildFrom ix [] ks = ks"
| "rebuildFrom ix (p # ps) ks = rebuildFrom (Suc ix) ps (ks(Key p \<mapsto> ix))"

definition rebuildKeys :: "Pair list \<Rightarrow> (string \<rightharpoonup> nat)" where
  "rebuildKeys es = rebuildFrom 0 es Map.empty"

definition Set :: "string \<Rightarrow> string \<Rightarrow> EnvMap \<Rightarrow> (error + string \<times> int) \<times> EnvMap" where
  "Set key val m =
     (case keys m key of
        Some at \<Rightarrow>
          if at < length (entries m)
          then (Inr (Val (entries m ! at), int at),
                m\<lparr>entries := (entries m)[at := \<lparr>Key = key, Val = val\<rparr>]\<rparr>)
          else (Inl IndexOutOfRange, m)
      | None \<Rightarrow>
          (Inr ([], - 1),
           m\<lparr>entries := entries m @ [\<lparr>Key = key, Val = val\<rparr>],
             keys := (keys m)(key \<mapsto> length (entries m))\<rparr>))"

text \<open>
  The second half of \<open>SetAt\<close>: clamp the target, splice the pair in, rebuild the table.
\<close>

definition insertAt :: "string \<Rightarrow> string \<Rightarrow> int \<Rightarrow> Pair list \<Rightarrow> Pair list" where
  "insertAt key val at es =
     (let at1 = (if at < 0 then 0 else at);
          at2 = (if at1 > int (length es) then int (length es) else at1)
      in take (nat at2) es @ [\<lparr>Key = key, Val = val\<rparr>] @ drop (nat at2) es)"

text \<open>
  The first half of \<open>SetAt\<close> for an existing key at \<open>ex\<close>:
  \<open>rpl := m.entries[:ex]; if ex < len(m.entries)-1 { rpl = append(rpl, m.entries[ex+1]) }\<close>.
  The \<open>append\<close> adds the one element \<open>m.entries[ex+1]\<close>, not the rest of the slice.
\<close>

definition cutAt :: "nat \<Rightarrow> Pair list \<Rightarrow> Pair list" where
  "cutAt ex es =
     take ex es @ (if int ex < int (length es) - 1 then [es ! (ex + 1)] else [])"

definition SetAt :: "string \<Rightarrow> string \<Rightarrow> int \<Rightarrow> EnvMap \<Rightarrow> (error + string \<times> int) \<times> EnvMap" where
  "SetAt key val at m =
     (case keys m key of
        Some ex \<Rightarrow>
          if ex < length (entries m)
          then (let was = Val (entries m ! ex);
                    rpl = cutAt ex (entries m);
                    at' = (if int ex < at then at - 1 else at);
                    es = insertAt key val at' rpl
                in (Inr (was, int ex), m\<lparr>entries := es, keys := rebuildKeys es\<rparr>))
          else (Inl IndexOutOfRange, m)
      | None \<Rightarrow>
          (let es = insertAt key val at (entries m)
           in (Inr ([], - 1), m\<lparr>entries := es, keys := rebuildKeys es\<rparr>)))"

definition Get :: "string \<Rightarrow> EnvMap \<Rightarrow> error + string \<times> int" where
  "Get key m =
     (case keys m key of
        Some r \<Rightarrow>
          if r < length (entries m) then Inr (Val (entries m ! r), int r)
          else Inl IndexOutOfRange
      | None \<Rightarrow> Inr ([], - 1))"

definition Remove :: "string \<Rightarrow> EnvMap \<Rightarrow> (error + string \<times> int) \<times> EnvMap" where
  "Remove key m =
     (case keys m key of
        Some at \<Rightarrow>
          if at < length (entries m)
          then (let es = take at (entries m) @ drop (at + 1) (entries m)
                in (Inr (Val (entries m ! at), int at),
                    m\<lparr>entries := es, keys := rebuildKeys es\<rparr>))
          else (Inl IndexOutOfRange, m)
      | None \<Rightarrow> (Inr ([], - 1), m))"

definition RemoveAt :: "int \<Rightarrow> EnvMap \<Rightarrow> (error + string \<times> int) \<times> EnvMap" where
  "RemoveAt at m =
     (if at < 0 \<or> at > int (length (entries m)) then (Inr ([], - 1), m)
      else if nat at < length (entries m)
      then (let es = take (nat at) (entries m) @ drop (nat at + 1) (entries m)
            in (Inr (Val (entries m ! nat at), at),
                m\<lparr>entries := es, keys := rebuildKeys es\<rparr>))
      else (Inl IndexOutOfRange, m))"

text \<open>
  The invariant of the data model: the key table mirrors the sequence (a key is in the
  table at position \<open>i\<close> exactly when the entry at \<open>i\<close> has that key), and no two entries
  share a key.
\<close>

definition mirrors :: "EnvMap \<Rightarrow> bool" where
  "mirrors m \<longleftrightarrow>
     (\<forall>k i. keys m k = Some i \<longleftrightarrow> i < length (entries m) \<and> Key (entries m ! i) = k)"

definition invar :: "EnvMap \<Rightarrow> bool" where
  "invar m \<longleftrightarrow> mirrors m \<and> distinct (map Key (entries m))"


text \<open>The map of the repository's own test: \<open>a\<close>, \<open>b\<close>, \<open>c\<close> set in that order.\<close>

definition abc :: EnvMap where
  "abc = snd (Set ''c'' ''C'' (snd (Set ''b'' ''B'' (snd (Set ''a'' ''A'' NewEnvMap)))))"

section \<open>Library functions used by the parser\<close>

text \<open>
  The functions of Go's packages \<open>strings\<close>, \<open>bufio\<close>, \<open>regexp\<close> and \<open>os\<close> that the parser
  calls are modelled on bytes. The ambient process environment is a parameter
  \<open>env\<close>, a map from names to values.
\<close>

abbreviation TAB :: char where "TAB \<equiv> CHR 0x09"
abbreviation NL :: char where "NL \<equiv> CHR 0x0A"
abbreviation FF :: char where "FF \<equiv> CHR 0x0C"
abbreviation CR :: char where "CR \<equiv> CHR 0x0D"
abbreviation SP :: char where "SP \<equiv> CHR 0x20"
abbreviation DQ :: char where "DQ \<equiv> CHR 0x22"
abbreviation HASH :: char where "HASH \<equiv> CHR 0x23"
abbreviation DOLLAR :: char where "DOLLAR \<equiv> CHR 0x24"
abbreviation SQ :: char where "SQ \<equiv> CHR 0x27"
abbreviation LPAREN :: char where "LPAREN \<equiv> CHR 0x28"
abbreviation COLON :: char where "COLON \<equiv> CHR 0x3A"
abbreviation EQUALS :: char where "EQUALS \<equiv> CHR 0x3D"
abbreviation BS :: char where "BS \<equiv> CHR 0x5C"
abbreviation LBRACE :: char where "LBRACE \<equiv> CHR 0x7B"
abbreviation RBRACE :: char where "RBRACE \<equiv> CHR 0x7D"

type_synonym environ = "string \<rightharpoonup> string"

text \<open>\<open>os.Getenv\<close>: the value, or the empty string when the variable is not set.\<close>

definition Getenv :: "environ \<Rightarrow> string \<Rightarrow> string" where
  "Getenv env name = (case env name of None \<Rightarrow> [] | Some v \<Rightarrow> v)"

text \<open>\<open>strings.Split(s, sep)\<close> and \<open>strings.Join(xs, sep)\<close> for a one-byte separator.\<close>

fun Split :: "string \<Rightarrow> char \<Rightarrow> string list" where
  "Split [] c = [[]]"
| "Split (x # xs) c =
     (if x = c then [] # Split xs c
      else (case Split xs c of [] \<Rightarrow> [[x]] | seg # segs \<Rightarrow> (x # seg) # segs))"

fun Join :: "string list \<Rightarrow> string \<Rightarrow> string" where
  "Join [] sep = []"
| "Join [a] sep = a"
| "Join (a # b # rest) sep = a @ sep @ Join (b # rest) sep"

text \<open>\<open>strings.Count(s, sep)\<close> for a one-byte separator.\<close>

definition Count :: "string \<Rightarrow> char \<Rightarrow> nat" where
  "Count s c = length (filter (\<lambda>x. x = c) s)"

text \<open>\<open>strings.Index(s, sep)\<close> for a one-byte separator: the first position, or \<open>-1\<close>.\<close>

fun Index :: "string \<Rightarrow> char \<Rightarrow> int" where
  "Index [] c = - 1"
| "Index (x # xs) c =
     (if x = c then 0 else (let i = Index xs c in if i < 0 then - 1 else i + 1))"

text \<open>\<open>strings.SplitN(s, sep, 2)\<close>: cut at the first separator, or the whole string alone.\<close>

definition SplitN2 :: "string \<Rightarrow> char \<Rightarrow> string list" where
  "SplitN2 s c =
     (if c \<in> set s then [takeWhile (\<lambda>x. x \<noteq> c) s, tl (dropWhile (\<lambda>x. x \<noteq> c) s)]
      else [s])"

text \<open>\<open>strings.Trim(s, " ")\<close>.\<close>

definition TrimSpaces :: "string \<Rightarrow> string" where
  "TrimSpaces s = rev (dropWhile (\<lambda>x. x = SP) (rev (dropWhile (\<lambda>x. x = SP) s)))"

text \<open>
  \<open>strings.TrimSpace\<close> removes, from both ends, the runes with Unicode's White Space
  property. On bytes these are the UTF-8 encodings below (U+0009 to U+000D, U+0020,
  U+0085, U+00A0, U+1680, U+2000 to U+200A, U+2028, U+2029, U+202F, U+205F, U+3000).
\<close>

definition spaceRunes :: "string list" where
  "spaceRunes =
     [[CHR 0x09], [CHR 0x0A], [CHR 0x0B], [CHR 0x0C], [CHR 0x0D], [CHR 0x20],
      [CHR 0xC2, CHR 0x85], [CHR 0xC2, CHR 0xA0], [CHR 0xE1, CHR 0x9A, CHR 0x80],
      [CHR 0xE2, CHR 0x80, CHR 0x80], [CHR 0xE2, CHR 0x80, CHR 0x81],
      [CHR 0xE2, CHR 0x80, CHR 0x82], [CHR 0xE2, CHR 0x80, CHR 0x83],
      [CHR 0xE2, CHR 0x80, CHR 0x84], [CHR 0xE2, CHR 0x80, CHR 0x85],
      [CHR 0xE2, CHR 0x80, CHR 0x86], [CHR 0xE2, CHR 0x80, CHR 0x87],
      [CHR 0xE2, CHR 0x80, CHR 0x88], [CHR 0xE2, CHR 0x80, CHR 0x89],
      [CHR 0xE2, CHR 0x80, CHR 0x8A], [CHR 0xE2, CHR 0x80, CHR 0xA8],
      [CHR 0xE2, CHR 0x80, CHR 0xA9], [CHR 0xE2, CHR 0x80, CHR 0xAF],
      [CHR 0xE2, CHR 0x81, CHR 0x9F], [CHR 0xE3, CHR 0x80, CHR 0x80]]"

definition spacePrefix :: "string \<Rightarrow> nat" where
  "spacePrefix s =
     (case find (\<lambda>e. take (length e) s = e) spaceRunes of None \<Rightarrow> 0 | Some e \<Rightarrow> length e)"

definition spaceSuffix :: "string \<Rightarrow> nat" where
  "spaceSuffix s =
     (case find (\<lambda>e. drop (length s - length e) s = e) spaceRunes of
        None \<Rightarrow> 0 | Some e \<Rightarrow> length e)"

function TrimLeftSpace :: "string \<Rightarrow> string" where
  "TrimLeftSpace s =
     (if spacePrefix s = 0 \<or> s = [] then s else TrimLeftSpace (drop (spacePrefix s) s))"
  by pat_completeness auto
termination
  by (relation "measure length") auto

function TrimRightSpace :: "string \<Rightarrow> string" where
  "TrimRightSpace s =
     (if spaceSuffix s = 0 \<or> s = [] then s
      else TrimRightSpace (take (length s - spaceSuffix s) s))"
  by pat_completeness auto
termination
  by (relation "measure length") auto

declare TrimLeftSpace.simps [simp del] TrimRightSpace.simps [simp del]

definition TrimSpace :: "string \<Rightarrow> string" where
  "TrimSpace s = TrimRightSpace (TrimLeftSpace s)"


section \<open>The parser and the serializer (godotenv.go)\<close>

text \<open>
  \<open>bufio.Scanner\<close> with its default split function: the text is cut at every newline,
  one trailing carriage return is dropped from each line, and a last line without a
  newline is a line when it is not empty. A failure of the scanner itself (a read error,
  a line longer than its buffer) is the read failure that \<open>Parse\<close> returns unchanged; the
  model covers the scans that succeed.
\<close>

definition dropCR :: "string \<Rightarrow> string" where
  "dropCR s = (if s \<noteq> [] \<and> last s = CR then butlast s else s)"

definition ScanLines :: "string \<Rightarrow> string list" where
  "ScanLines text =
     (let ps = Split text NL in map dropCR (if last ps = [] then butlast ps else ps))"

definition isIgnoredLine :: "string \<Rightarrow> bool" where
  "isIgnoredLine line =
     (let trimmedLine = TrimSpace line
      in length trimmedLine = 0 \<or> take 1 trimmedLine = [HASH])"

text \<open>The loop over \<open>segmentsBetweenHashes\<close> in \<open>parseLine\<close>, with its two variables.\<close>

fun keepSegments :: "string list \<Rightarrow> bool \<Rightarrow> string list \<Rightarrow> string list" where
  "keepSegments [] quotesAreOpen segmentsToKeep = segmentsToKeep"
| "keepSegments (segment # rest) quotesAreOpen segmentsToKeep =
     (let (open1, keep1) =
            (if Count segment DQ = 1 \<or> Count segment SQ = 1
             then (if quotesAreOpen then (False, segmentsToKeep @ [segment])
                   else (True, segmentsToKeep))
             else (quotesAreOpen, segmentsToKeep));
          keep2 = (if length keep1 = 0 \<or> open1 then keep1 @ [segment] else keep1)
      in keepSegments rest open1 keep2)"

definition ditchComments :: "string \<Rightarrow> string" where
  "ditchComments line =
     (if HASH \<in> set line then Join (keepSegments (Split line HASH) False []) [HASH]
      else line)"

text \<open>
  Lines 258 to 262 of \<open>parseLine\<close>: the key by prefix removal and \<open>TrimSpace\<close>. The
  assignment of line 265 overwrites the result.
\<close>

definition keyByPrefix :: "string \<Rightarrow> string" where
  "keyByPrefix piece =
     TrimSpace (if take 6 piece = ''export'' then drop 6 piece else piece)"

text \<open>
  Line 265: \<open>re.ReplaceAllString(splitString[0], "$1")\<close> for the expression
  \<open>^\s*(?:export\s+)?(.*?)\s*$\<close>. In Go's syntax \<open>\s\<close> is one of tab, newline, form feed,
  carriage return and space, and \<open>.\<close> is any character but newline. The expression is
  anchored at both ends, so it matches the whole piece or nothing: the greedy \<open>\s*\<close> takes
  all leading white space, the optional group takes \<open>export\<close> with all the white space
  after it when at least one follows, and the lazy group stops before the trailing white
  space. There is no match when a newline is left inside the group, and then the piece
  is returned as it is.
\<close>

definition reSpace :: "char \<Rightarrow> bool" where
  "reSpace c \<longleftrightarrow> c = TAB \<or> c = NL \<or> c = FF \<or> c = CR \<or> c = SP"

definition keyByRegexp :: "string \<Rightarrow> string" where
  "keyByRegexp piece =
     (let s1 = dropWhile reSpace piece;
          s2 = (if take 6 s1 = ''export'' \<and> (case drop 6 s1 of [] \<Rightarrow> False | c # cs \<Rightarrow> reSpace c)
                then dropWhile reSpace (drop 6 s1) else s1);
          s3 = rev (dropWhile reSpace (rev s2))
      in if NL \<in> set s3 then piece else s3)"

text \<open>
  \<open>escapeRegex.ReplaceAllStringFunc\<close> for \<open>\\.\<close>: a backslash and the next character
  (not a newline), from left to right; \<open>\n\<close> and \<open>\r\<close> become the control character, any
  other pair stays.
\<close>

fun expandNewlines :: "string \<Rightarrow> string" where
  "expandNewlines (a # b # rest) =
     (if a = BS \<and> b \<noteq> NL
      then (if b = CHR ''n'' then NL # expandNewlines rest
            else if b = CHR ''r'' then CR # expandNewlines rest
            else a # b # expandNewlines rest)
      else a # expandNewlines (b # rest))"
| "expandNewlines s = s"

text \<open>\<open>e.ReplaceAllString(value, "$1")\<close> for \<open>\\([^$])\<close>.\<close>

fun unescapeCharacters :: "string \<Rightarrow> string" where
  "unescapeCharacters (a # b # rest) =
     (if a = BS \<and> b \<noteq> DOLLAR then b # unescapeCharacters rest
      else a # unescapeCharacters (b # rest))"
| "unescapeCharacters s = s"

text \<open>
  The expression of \<open>expandVariables\<close>, \<open>(\\)?(\$)(\()?\{?([A-Z0-9_]+)?\}?\<close>, matched at
  the start of a string. Every part but the dollar sign is optional and greedy, so a match
  exists exactly when the string starts with a dollar sign or with a backslash and a
  dollar sign. The result is the list that \<open>FindStringSubmatch\<close> returns (the match and
  the four groups, an absent group being empty) and the text after the match.
\<close>

definition identChar :: "char \<Rightarrow> bool" where
  "identChar c \<longleftrightarrow> c \<in> set ''ABCDEFGHIJKLMNOPQRSTUVWXYZ0123456789_''"

definition optByte :: "char \<Rightarrow> string \<Rightarrow> string \<times> string" where
  "optByte c s = (if take 1 s = [c] then ([c], drop 1 s) else ([], s))"

definition matchHere :: "string \<Rightarrow> (string list \<times> string) option" where
  "matchHere s =
     (let (g1, s1) = optByte BS s
      in if take 1 s1 \<noteq> [DOLLAR] then None
         else (let (g3, s3) = optByte LPAREN (drop 1 s1);
                   (ob, s4) = optByte LBRACE s3;
                   g4 = takeWhile identChar s4;
                   (cb, s6) = optByte RBRACE (dropWhile identChar s4)
               in Some ([g1 @ [DOLLAR] @ g3 @ ob @ g4 @ cb, g1, [DOLLAR], g3, g4], s6)))"

text \<open>\<open>r.FindStringSubmatch(s)\<close>: the leftmost match.\<close>

fun FindStringSubmatch :: "string \<Rightarrow> string list option" where
  "FindStringSubmatch [] = None"
| "FindStringSubmatch (c # cs) =
     (case matchHere (c # cs) of
        Some (submatch, rest) \<Rightarrow> Some submatch
      | None \<Rightarrow> FindStringSubmatch cs)"

text \<open>The function literal that \<open>expandVariables\<close> applies to every match \<open>s\<close>.\<close>

definition replaceMatch :: "string \<Rightarrow> EnvMap \<Rightarrow> environ \<Rightarrow> error + string" where
  "replaceMatch s m env =
     (case FindStringSubmatch s of
        None \<Rightarrow> Inr s
      | Some submatch \<Rightarrow>
          if submatch ! 1 = [BS] \<or> submatch ! 2 = [LPAREN] then Inr (drop 1 (submatch ! 0))
          else if submatch ! 4 \<noteq> []
          then (case Get (submatch ! 4) m of
                  Inl e \<Rightarrow> Inl e
                | Inr (val, ok) \<Rightarrow> if ok \<ge> 0 then Inr val else Inr (Getenv env (submatch ! 4)))
          else Inr s)"

function expandVariables :: "string \<Rightarrow> EnvMap \<Rightarrow> environ \<Rightarrow> error + string" where
  "expandVariables v m env =
     (case v of
        [] \<Rightarrow> Inr []
      | c # cs \<Rightarrow>
          (case matchHere v of
             None \<Rightarrow>
               (case expandVariables cs m env of Inl e \<Rightarrow> Inl e | Inr t \<Rightarrow> Inr (c # t))
           | Some (submatch, rest) \<Rightarrow>
               (case replaceMatch (submatch ! 0) m env of
                  Inl e \<Rightarrow> Inl e
                | Inr r \<Rightarrow>
                    (case expandVariables rest m env of
                       Inl e \<Rightarrow> Inl e
                     | Inr t \<Rightarrow> Inr (r @ t)))))"
  by pat_completeness auto
termination
proof (relation "measure (\<lambda>(v, m, env). length v)")
  show "wf (measure (\<lambda>(v, m, env). length v))" by simp
next
  fix v :: string and m :: EnvMap and env :: environ and c cs
  assume "v = c # cs"
  then show "((cs, m, env), v, m, env) \<in> measure (\<lambda>(v, m, env). length v)" by simp
next
  fix v :: string and m :: EnvMap and env :: environ and c cs x2 submatch rest r
  assume v: "v = c # cs" and mh: "matchHere v = Some x2" and x2: "(submatch, rest) = x2"
  have olen: "length (snd (optByte b t)) \<le> length t" for b t
    by (simp add: optByte_def)
  have "length rest < length v"
    using mh x2 [symmetric] v
      olen [of RBRACE "dropWhile identChar (snd (optByte LBRACE (snd (optByte LPAREN (drop 1 (snd (optByte BS v)))))))"]
      olen [of LBRACE "snd (optByte LPAREN (drop 1 (snd (optByte BS v))))"]
      olen [of LPAREN "drop 1 (snd (optByte BS v))"]
      olen [of BS v]
      length_dropWhile_le [of identChar "snd (optByte LBRACE (snd (optByte LPAREN (drop 1 (snd (optByte BS v))))))"]
    by (auto simp: matchHere_def Let_def split_beta split: if_splits)
  then show "((rest, m, env), v, m, env) \<in> measure (\<lambda>(v, m, env). length v)" by simp
qed

declare expandVariables.simps [simp del]

definition parseValue :: "string \<Rightarrow> EnvMap \<Rightarrow> bool \<Rightarrow> environ \<Rightarrow> error + string" where
  "parseValue value0 envMap expand env =
     (let value = TrimSpaces value0
      in if length value > 1
         then (let inner = butlast (tl value);
                   singleQuotes = (hd value = SQ \<and> last value = SQ \<and> NL \<notin> set inner);
                   doubleQuotes = (hd value = DQ \<and> last value = DQ \<and> NL \<notin> set inner);
                   value1 = (if singleQuotes \<or> doubleQuotes then inner else value);
                   value2 = (if doubleQuotes then unescapeCharacters (expandNewlines value1)
                             else value1)
               in if \<not> singleQuotes \<and> expand then expandVariables value2 envMap env
                  else Inr value2)
         else Inr value)"

definition parseLine :: "string \<Rightarrow> EnvMap \<Rightarrow> bool \<Rightarrow> environ \<Rightarrow> error + string \<times> string" where
  "parseLine line0 envMap expand env =
     (if length line0 = 0 then Inl ZeroLengthString
      else (let line = ditchComments line0;
                firstEquals = Index line EQUALS;
                firstColon = Index line COLON;
                splitString =
                  (if firstColon \<noteq> - 1 \<and> (firstColon < firstEquals \<or> firstEquals = - 1)
                   then SplitN2 line COLON else SplitN2 line EQUALS)
            in if length splitString \<noteq> 2 then Inl CantSeparate
               else (let key0 = keyByPrefix (splitString ! 0);
                         key = keyByRegexp (splitString ! 0)
                     in (case parseValue (splitString ! 1) envMap expand env of
                           Inl e \<Rightarrow> Inl e
                         | Inr value \<Rightarrow> Inr (key, value)))))"

text \<open>
  \<open>Parse\<close>: the loop over the scanned lines. The result is the error, if any, and the map
  as the call leaves it (Go returns both).
\<close>

fun parseLines :: "string list \<Rightarrow> EnvMap \<Rightarrow> bool \<Rightarrow> environ \<Rightarrow> error option \<times> EnvMap" where
  "parseLines [] envMap expand env = (None, envMap)"
| "parseLines (fullLine # rest) envMap expand env =
     (if \<not> isIgnoredLine fullLine
      then (case parseLine fullLine envMap expand env of
              Inl e \<Rightarrow> (Some e, envMap)
            | Inr (key, value) \<Rightarrow>
                (case Set key value envMap of
                   (Inl e, m') \<Rightarrow> (Some e, m')
                 | (Inr old, m') \<Rightarrow> parseLines rest m' expand env))
      else parseLines rest envMap expand env)"

definition Parse :: "string \<Rightarrow> bool \<Rightarrow> environ \<Rightarrow> error option \<times> EnvMap" where
  "Parse text expand env = parseLines (ScanLines text) NewEnvMap expand env"

definition Unmarshal :: "string \<Rightarrow> environ \<Rightarrow> error option \<times> EnvMap" where
  "Unmarshal str env = Parse str True env"







section \<open>Definitions used to state the properties\<close>

text \<open>A map in which \<open>A\<close> is bound to \<open>1\<close>.\<close>

definition mapA :: EnvMap where
  "mapA = snd (Set ''A'' ''1'' NewEnvMap)"

text \<open>
  The comment-stripping rule in the words of the specification (section 4.2, step 2):
  the flag starts false; a segment with exactly one single quote or exactly one double
  quote toggles it; then the segment is kept if it is the first segment, if no segment
  has been kept yet, or if the flag is currently true.
\<close>

fun keepSegmentsSpec :: "string list \<Rightarrow> bool \<Rightarrow> bool \<Rightarrow> string list \<Rightarrow> string list" where
  "keepSegmentsSpec [] first flag kept = kept"
| "keepSegmentsSpec (segment # rest) first flag kept =
     (let flag' = (if Count segment SQ = 1 \<or> Count segment DQ = 1 then \<not> flag else flag);
          kept' = (if first \<or> kept = [] \<or> flag' then kept @ [segment] else kept)
      in keepSegmentsSpec rest False flag' kept')"

definition ditchCommentsSpec :: "string \<Rightarrow> string" where
  "ditchCommentsSpec line = Join (keepSegmentsSpec (Split line HASH) True False []) [HASH]"

text \<open>
  The rule as amended: a segment is kept if it is the first one, or if the flag is true
  before the segment's toggle or after it.
\<close>

fun keptSegments :: "string list \<Rightarrow> bool \<Rightarrow> bool \<Rightarrow> string list" where
  "keptSegments [] first flag = []"
| "keptSegments (segment # rest) first flag =
     (let flag' = (if Count segment SQ = 1 \<or> Count segment DQ = 1 then \<not> flag else flag)
      in (if first \<or> flag \<or> flag' then [segment] else []) @ keptSegments rest False flag')"











section \<open>Properties of the ordered map\<close>

lemma rebuildFrom_notin:
  "k \<notin> Key ` set es \<Longrightarrow> rebuildFrom ix es ks k = ks k"
  by (induction es arbitrary: ix ks) auto

lemma rebuildFrom_nth:
  "distinct (map Key es) \<Longrightarrow> i < length es \<Longrightarrow> rebuildFrom ix es ks (Key (es ! i)) = Some (ix + i)"
proof (induction es arbitrary: ix ks i)
  case Nil
  then show ?case by simp
next
  case (Cons p ps)
  show ?case
  proof (cases i)
    case 0
    with Cons.prems show ?thesis by (simp add: rebuildFrom_notin)
  next
    case (Suc j)
    with Cons.prems Cons.IH [of j "Suc ix"] show ?thesis by simp
  qed
qed

lemma distinct_keys_nth_eq:
  assumes "distinct (map Key es)" "i < length es" "j < length es" "Key (es ! i) = Key (es ! j)"
  shows "i = j"
proof -
  have "map Key es ! i = map Key es ! j" using assms by simp
  moreover have "i < length (map Key es)" "j < length (map Key es)" using assms by simp_all
  ultimately show ?thesis using assms(1) nth_eq_iff_index_eq [of "map Key es" i j] by blast
qed

lemma rebuildKeys_mirrors:
  assumes "distinct (map Key es)"
  shows "mirrors \<lparr>entries = es, keys = rebuildKeys es\<rparr>"
proof -
  have "rebuildKeys es k = Some i \<longleftrightarrow> i < length es \<and> Key (es ! i) = k" for k i
  proof (cases "k \<in> Key ` set es")
    case False
    then have "rebuildKeys es k = None"
      by (simp add: rebuildKeys_def rebuildFrom_notin)
    moreover from False have "\<not> (i < length es \<and> Key (es ! i) = k)"
      by auto
    ultimately show ?thesis by simp
  next
    case True
    then obtain j where j: "j < length es" "Key (es ! j) = k"
      by (auto simp: in_set_conv_nth)
    then have r: "rebuildKeys es k = Some j"
      using rebuildFrom_nth [OF assms, of j 0 Map.empty] by (simp add: rebuildKeys_def)
    have "i = j" if "i < length es" "Key (es ! i) = k"
      using that j distinct_keys_nth_eq [OF assms, of i j] by simp
    with r j show ?thesis by auto
  qed
  then show ?thesis by (simp add: mirrors_def)
qed

lemma invar_rebuild:
  "distinct (map Key es) \<Longrightarrow> invar (m\<lparr>entries := es, keys := rebuildKeys es\<rparr>)"
  using rebuildKeys_mirrors [of es] by (simp add: invar_def mirrors_def)

lemma mirrors_key_in: "mirrors m \<Longrightarrow> keys m k = Some i \<Longrightarrow> i < length (entries m) \<and> Key (entries m ! i) = k"
  by (simp add: mirrors_def)

lemma mirrors_key_notin:
  assumes "mirrors m" "keys m k = None"
  shows "k \<notin> Key ` set (entries m)"
proof
  assume "k \<in> Key ` set (entries m)"
  then obtain j where "j < length (entries m)" "Key (entries m ! j) = k"
    by (auto simp: in_set_conv_nth)
  with assms(1) have "keys m k = Some j" by (simp add: mirrors_def)
  with assms(2) show False by simp
qed


lemma distinct_keys_take: "distinct (map Key es) \<Longrightarrow> distinct (map Key (take n es))"
  using distinct_take [of "map Key es" n] by (simp add: take_map)

lemma distinct_keys_drop: "distinct (map Key es) \<Longrightarrow> distinct (map Key (drop n es))"
  using distinct_drop [of "map Key es" n] by (simp add: drop_map)

lemma keys_take_drop_disj:
  assumes "distinct (map Key es)" "n \<le> j"
  shows "Key ` set (take n es) \<inter> Key ` set (drop j es) = {}"
proof -
  have "set (take n (map Key es)) \<inter> set (drop j (map Key es)) = {}"
    using assms by (rule set_take_disj_set_drop_if_distinct)
  then show ?thesis by (simp add: take_map drop_map)
qed



lemma keys_cutAt: "set (map Key (cutAt ex es)) \<subseteq> set (map Key es)"
  by (auto simp: cutAt_def dest: in_set_takeD)

lemma cutAt_eq:
  "ex < length es \<Longrightarrow> cutAt ex es = take ex es @ take 1 (drop (ex + 1) es)"
proof (cases "drop (ex + 1) es")
  case Nil
  then show ?thesis by (simp add: cutAt_def)
next
  case (Cons a list)
  then have "ex + 1 < length es" by (metis drop_eq_Nil list.distinct(1) not_le)
  moreover from Cons have "es ! (ex + 1) = a" by (metis nth_via_drop)
  ultimately show ?thesis using Cons by (simp add: cutAt_def)
qed

lemma distinct_cutAt:
  assumes "distinct (map Key es)" "ex < length es"
  shows "distinct (map Key (cutAt ex es)) \<and> Key (es ! ex) \<notin> Key ` set (cutAt ex es)"
proof -
  have es: "es = take ex es @ (es ! ex) # drop (ex + 1) es"
    using assms(2) by (simp add: id_take_nth_drop)
  have "distinct (map Key (take ex es @ (es ! ex) # drop (ex + 1) es))"
    using assms(1) es by simp
  then have n1: "Key (es ! ex) \<notin> Key ` set (take ex es)"
    and n2: "Key (es ! ex) \<notin> Key ` set (drop (ex + 1) es)"
    by auto
  have sub: "set (take 1 (drop (ex + 1) es)) \<subseteq> set (drop (ex + 1) es)"
    by (rule set_take_subset)
  have d1: "distinct (map Key (take 1 (drop (ex + 1) es)))"
    using assms(1) by (intro distinct_keys_take distinct_keys_drop)
  have disj: "Key ` set (take ex es) \<inter> Key ` set (drop (ex + 1) es) = {}"
    using assms(1) by (intro keys_take_drop_disj) simp_all
  have d0: "distinct (map Key (take ex es))"
    using assms(1) by (rule distinct_keys_take)
  have disj1: "Key ` set (take ex es) \<inter> Key ` set (take 1 (drop (ex + 1) es)) = {}"
    using disj sub by blast
  have n3: "Key (es ! ex) \<notin> Key ` set (take 1 (drop (ex + 1) es))"
    using n2 sub by blast
  show ?thesis
    unfolding cutAt_eq [OF assms(2)] using d0 d1 disj1 n1 n3 by (simp add: image_Un)
qed

lemma distinct_insertAt:
  assumes "distinct (map Key es)" "k \<notin> Key ` set es"
  shows "distinct (map Key (insertAt k v at es))"
proof -
  have "distinct (map Key (take n es @ [\<lparr>Key = k, Val = v\<rparr>] @ drop n es))" for n
  proof -
    have "k \<notin> Key ` set (take n es)" "k \<notin> Key ` set (drop n es)"
      using assms(2) by (auto dest: in_set_takeD in_set_dropD)
    then show ?thesis
      using distinct_keys_take [OF assms(1), of n] distinct_keys_drop [OF assms(1), of n]
        keys_take_drop_disj [OF assms(1), of n n] by simp
  qed
  then show ?thesis by (simp add: insertAt_def Let_def)
qed

lemma invar_SetAt:
  assumes "invar m" shows "invar (snd (SetAt k v at m))"
proof (cases "keys m k")
  case None
  with assms have nin: "k \<notin> Key ` set (entries m)"
    using mirrors_key_notin by (simp add: invar_def)
  have "distinct (map Key (insertAt k v at (entries m)))"
    using distinct_insertAt assms nin by (simp add: invar_def)
  then show ?thesis using None by (simp add: SetAt_def Let_def invar_rebuild)
next
  case (Some ex)
  have mir: "mirrors m" and dis: "distinct (map Key (entries m))"
    using assms by (simp_all add: invar_def)
  from mirrors_key_in [OF mir Some] have ex: "ex < length (entries m)" "Key (entries m ! ex) = k"
    by simp_all
  from distinct_cutAt [OF dis ex(1)] ex(2)
  have "distinct (map Key (cutAt ex (entries m)))" "k \<notin> Key ` set (cutAt ex (entries m))"
    by simp_all
  then have "distinct (map Key (insertAt k v at' (cutAt ex (entries m))))" for at'
    by (rule distinct_insertAt)
  then show ?thesis using Some ex by (simp add: SetAt_def Let_def invar_rebuild)
qed



lemma abc_entries:
  "entries abc = [\<lparr>Key = ''a'', Val = ''A''\<rparr>, \<lparr>Key = ''b'', Val = ''B''\<rparr>, \<lparr>Key = ''c'', Val = ''C''\<rparr>]"
  by (simp add: abc_def Set_def NewEnvMap_def)

lemma abc_keys:
  "keys abc ''a'' = Some 0" "keys abc ''b'' = Some 1" "keys abc ''c'' = Some 2"
  by (simp_all add: abc_def Set_def NewEnvMap_def)

lemma length_insertAt: "length (insertAt k v at es) = Suc (length es)"
  by (simp add: insertAt_def Let_def)

lemma length_cutAt: "ex < length es \<Longrightarrow> length (cutAt ex es) = min (length es - 1) (ex + 1)"
  by (auto simp: cutAt_def)

lemma SetAt_existing_Len:
  assumes "keys m k = Some ex" "ex < length (entries m)"
  shows "Len (snd (SetAt k v at m)) = min (Len m) (int ex + 2)"
  using assms by (auto simp: SetAt_def Let_def Len_def length_insertAt length_cutAt)

lemma Remove_present:
  assumes "invar m" "keys m k = Some i"
  shows "fst (Remove k m) = Inr (Val (entries m ! i), int i) \<and>
         Len (snd (Remove k m)) = Len m - 1 \<and>
         entries (snd (Remove k m)) = take i (entries m) @ drop (Suc i) (entries m)"
proof -
  have "i < length (entries m)" using assms mirrors_key_in by (simp add: invar_def)
  with assms(2) show ?thesis by (simp add: Remove_def Len_def Let_def)
qed

lemma Remove_absent: "keys m k = None \<Longrightarrow> Remove k m = (Inr ([], - 1), m)"
  by (simp add: Remove_def)

lemma RemoveAt_in_range:
  assumes "0 \<le> at" "at < Len m"
  shows "fst (RemoveAt at m) = Inr (Val (entries m ! nat at), at) \<and>
         Len (snd (RemoveAt at m)) = Len m - 1"
  using assms by (auto simp: RemoveAt_def Len_def Let_def)

lemma RemoveAt_outside:
  "at < 0 \<or> Len m < at \<Longrightarrow> RemoveAt at m = (Inr ([], - 1), m)"
  by (auto simp: RemoveAt_def Len_def)

lemma SetAt_existing_one_occurrence:
  assumes "invar m" "keys m k = Some ex"
  shows "length (filter (\<lambda>p. Key p = k) (entries (snd (SetAt k v at m)))) = 1"
proof -
  have i: "invar (snd (SetAt k v at m))" using assms(1) by (rule invar_SetAt)
  have ex: "ex < length (entries m)" using assms mirrors_key_in by (simp add: invar_def)
  have "\<lparr>Key = k, Val = v\<rparr> \<in> set (entries (snd (SetAt k v at m)))"
    using assms(2) ex by (simp add: SetAt_def Let_def insertAt_def)
  then have "k \<in> set (map Key (entries (snd (SetAt k v at m))))" by force
  moreover have "distinct (map Key (entries (snd (SetAt k v at m))))"
    using i by (simp add: invar_def)
  ultimately have "length (filter (\<lambda>x. x = k) (map Key (entries (snd (SetAt k v at m))))) = 1"
    using distinct_length_filter [of "map Key (entries (snd (SetAt k v at m)))" "\<lambda>x. x = k"]
    by (simp del: filter_map add: Collect_conv_if)
  then show ?thesis by (simp add: filter_map comp_def)
qed


text \<open>
  Claim C1. \<open>SetAt\<close> on an existing key is claimed to leave exactly one entry with that
  key and the length unchanged. The removal step appends the single element after the
  old slot instead of the rest of the slice, so every entry from the second one after the
  old slot on is lost: the length after the call is \<open>min (Len m) (ex + 2)\<close>
  (\<open>SetAt_existing_Len\<close>), while one entry with the key does remain
  (\<open>SetAt_existing_one_occurrence\<close>). On the map
  \<open>a, b, c\<close> of the repository's test, \<open>SetAt("a", "X", 2)\<close> leaves two entries, \<open>b\<close> and
  \<open>a\<close>; the entry \<open>c\<close> is gone.
\<close>

theorem SetAt_existing_key_drops_entries:
  "Len abc = 3 \<and> Get ''a'' abc = Inr (''A'', 0) \<and>
   fst (SetAt ''a'' ''X'' 2 abc) = Inr (''A'', 0) \<and>
   Len (snd (SetAt ''a'' ''X'' 2 abc)) = 2 \<and>
   entries (snd (SetAt ''a'' ''X'' 2 abc)) = [\<lparr>Key = ''b'', Val = ''B''\<rparr>, \<lparr>Key = ''a'', Val = ''X''\<rparr>]"
  by (simp add: SetAt_def Get_def Len_def abc_entries abc_keys cutAt_def insertAt_def Let_def)

text \<open>
  Claim C6. \<open>Remove\<close> and \<open>RemoveAt\<close> are claimed to be total, a position that addresses
  no entry giving the not-found result. The guard of \<open>RemoveAt\<close> is \<open>at > len(m.entries)\<close>,
  so the position equal to the length passes it and the read \<open>m.entries[at]\<close> panics, on
  every map; on the empty map at position 0. On every other argument the two operations
  do what the claim says (\<open>Remove_present\<close>, \<open>Remove_absent\<close>, \<open>RemoveAt_in_range\<close>,
  \<open>RemoveAt_outside\<close>).
\<close>

theorem RemoveAt_at_Len_panics:
  "RemoveAt (Len m) m = (Inl IndexOutOfRange, m) \<and> fst (RemoveAt 0 NewEnvMap) = Inl IndexOutOfRange"
  by (simp add: RemoveAt_def Len_def NewEnvMap_def)




lemma SetAt_no_panic: "invar m \<Longrightarrow> fst (SetAt k v at m) \<noteq> Inl e"
  by (auto simp: SetAt_def invar_def Let_def split: option.splits dest: mirrors_key_in)

lemma Remove_no_panic: "invar m \<Longrightarrow> fst (Remove k m) \<noteq> Inl e"
  by (auto simp: Remove_def invar_def Let_def split: option.splits dest: mirrors_key_in)


section \<open>Properties of the parser\<close>

lemma optByte_cases: "optByte c s = ([c], tl s) \<and> s \<noteq> [] \<and> hd s = c \<or> optByte c s = ([], s) \<and> take 1 s \<noteq> [c]"
  by (cases s) (auto simp: optByte_def)

lemma optByte_concat: "fst (optByte c s) @ snd (optByte c s) = s"
  by (cases s) (auto simp: optByte_def)

lemma matchHere_Some:
  assumes "matchHere s = Some (sub, rest)"
  shows "length sub = 5 \<and> sub ! 2 = [DOLLAR] \<and> (sub ! 1 = [] \<or> sub ! 1 = [BS]) \<and>
         sub ! 0 \<noteq> [] \<and> sub ! 0 @ rest = s"
proof -
  obtain g1 s1 where o1: "optByte BS s = (g1, s1)" by (cases "optByte BS s")
  with assms have d: "take 1 s1 = [DOLLAR]"
    by (auto simp: matchHere_def Let_def split: if_splits)
  obtain g3 s3 where o3: "optByte LPAREN (drop 1 s1) = (g3, s3)" by (cases "optByte LPAREN (drop 1 s1)")
  obtain ob s4 where o4: "optByte LBRACE s3 = (ob, s4)" by (cases "optByte LBRACE s3")
  obtain cb s6 where o6: "optByte RBRACE (dropWhile identChar s4) = (cb, s6)"
    by (cases "optByte RBRACE (dropWhile identChar s4)")
  from assms o1 d o3 o4 o6
  have sub: "sub = [g1 @ [DOLLAR] @ g3 @ ob @ takeWhile identChar s4 @ cb, g1, [DOLLAR], g3, takeWhile identChar s4]"
    and rest: "rest = s6"
    by (auto simp: matchHere_def Let_def)
  have c1: "g1 @ s1 = s" using optByte_concat [of BS s] o1 by simp
  have c2: "[DOLLAR] @ drop 1 s1 = s1" using d by (cases s1) auto
  have c3: "g3 @ s3 = drop 1 s1" using optByte_concat [of LPAREN "drop 1 s1"] o3 by simp
  have c4: "ob @ s4 = s3" using optByte_concat [of LBRACE s3] o4 by simp
  have c5: "takeWhile identChar s4 @ dropWhile identChar s4 = s4" by simp
  have c6: "cb @ s6 = dropWhile identChar s4"
    using optByte_concat [of RBRACE "dropWhile identChar s4"] o6 by simp
  have "(g1 @ [DOLLAR] @ g3 @ ob @ takeWhile identChar s4 @ cb) @ s6 = s"
    using c1 c2 c3 c4 c5 c6 by (metis append.assoc)
  moreover have "g1 = [] \<or> g1 = [BS]" using o1 by (auto simp: optByte_def split: if_splits)
  ultimately show ?thesis using sub rest by auto
qed

lemma FindStringSubmatch_Some:
  "FindStringSubmatch s = Some sub \<Longrightarrow> length sub = 5 \<and> sub ! 2 = [DOLLAR] \<and> (sub ! 1 = [] \<or> sub ! 1 = [BS])"
proof (induction s)
  case Nil
  then show ?case by simp
next
  case (Cons c cs)
  show ?case
  proof (cases "matchHere (c # cs)")
    case None
    with Cons show ?thesis by simp
  next
    case (Some a)
    obtain sub' rest where a: "a = (sub', rest)" by (cases a)
    with Some Cons.prems have "sub' = sub" by simp
    with Some a matchHere_Some [of "c # cs" sub rest] show ?thesis by simp
  qed
qed


lemma expandVariables_Nil: "expandVariables [] m env = Inr []"
  by (simp add: expandVariables.simps)

lemma expandVariables_no_match:
  "matchHere (c # cs) = None \<Longrightarrow>
   expandVariables (c # cs) m env = (case expandVariables cs m env of Inl e \<Rightarrow> Inl e | Inr t \<Rightarrow> Inr (c # t))"
  by (subst expandVariables.simps) simp



lemma matchHere_no_dollar: "DOLLAR \<notin> set s \<Longrightarrow> matchHere s = None"
proof -
  assume a: "DOLLAR \<notin> set s"
  have "set (snd (optByte BS s)) \<subseteq> set s"
    by (cases s) (auto simp: optByte_def)
  with a have "take 1 (snd (optByte BS s)) \<noteq> [DOLLAR]"
    by (cases "snd (optByte BS s)") auto
  then show ?thesis by (simp add: matchHere_def split_beta)
qed

lemma expandVariables_no_dollar: "DOLLAR \<notin> set v \<Longrightarrow> expandVariables v m env = Inr v"
proof (induction v)
  case Nil
  then show ?case by (simp add: expandVariables_Nil)
next
  case (Cons c cs)
  then have "matchHere (c # cs) = None" by (intro matchHere_no_dollar) simp
  with Cons show ?case by (simp add: expandVariables_no_match)
qed

lemma mapA_simps: "entries mapA = [\<lparr>Key = ''A'', Val = ''1''\<rparr>]" "keys mapA = [''A'' \<mapsto> 0]"
  by (simp_all add: mapA_def Set_def NewEnvMap_def)

lemmas eval_line =
  parseLine_def ditchComments_def SplitN2_def parseValue_def TrimSpaces_def keyByRegexp_def
  reSpace_def expandVariables.simps matchHere_def optByte_def identChar_def replaceMatch_def
  Get_def Getenv_def Let_def Count_def

text \<open>
  Claim C3. A reference with a leading backslash, or with \<open>(\<close> after the dollar sign, is
  claimed to be emitted literally without its first character. The function literal tests
  \<open>submatch[2] == "("\<close>, but group 2 of the expression is the dollar sign and the
  parenthesis is group 3, so the test never holds: \<open>$(A\<close> is a match with the identifier
  \<open>A\<close> and is replaced by the value of \<open>A\<close>. With \<open>A\<close> bound to \<open>1\<close>, \<open>X=$(A)\<close> gives \<open>1)\<close>;
  with \<open>A\<close> bound nowhere it gives \<open>)\<close>.
\<close>

theorem dollar_paren_reference_is_substituted:
  "replaceMatch ''$(A'' mapA env = Inr ''1'' \<and>
   expandVariables ''$(A)'' mapA env = Inr ''1)'' \<and>
   parseLine ''X=$(A)'' mapA True env = Inr (''X'', ''1)'') \<and>
   parseLine ''X=$(A)'' NewEnvMap True Map.empty = Inr (''X'', '')'')"
  by (simp add: eval_line mapA_simps NewEnvMap_def)








lemma dropWhile_SP_replicate:
  "x \<noteq> SP \<Longrightarrow> dropWhile (\<lambda>x. x = SP) (replicate n SP @ x # xs) = x # xs"
  by (induction n) simp_all

lemma TrimSpaces_padded:
  assumes "hd s \<noteq> SP" "last s \<noteq> SP" "s \<noteq> []"
  shows "TrimSpaces (replicate a SP @ s @ replicate b SP) = s"
proof -
  obtain x xs where s: "s = x # xs" using assms(3) by (cases s) auto
  obtain y ys where r: "rev s = y # ys" using assms(3) by (cases "rev s") auto
  have x: "x \<noteq> SP" using assms(1) s by simp
  have y: "y \<noteq> SP" using assms(2) r by (metis hd_rev list.sel(1))
  have 1: "dropWhile (\<lambda>x. x = SP) (replicate a SP @ s @ replicate b SP) = s @ replicate b SP"
    using dropWhile_SP_replicate [OF x, of a "xs @ replicate b SP"] s by simp
  have 2: "dropWhile (\<lambda>x. x = SP) (rev (s @ replicate b SP)) = rev s"
    using dropWhile_SP_replicate [OF y, of b ys] r by simp
  show ?thesis unfolding TrimSpaces_def 1 2 by simp
qed

text \<open>
  Claim C10. A value in single quotes (with spaces around it or not) decodes to the text
  between the quotes as it is, whatever the expansion flag, the map and the environment.
  The text has no newline, as no scanned line has one (\<open>ScanLines_no_newline\<close> below). The
  line \<open>Z='$A'\<close> gives the value \<open>$A\<close>.
\<close>

theorem single_quoted_value_verbatim:
  assumes "NL \<notin> set inner"
  shows "parseValue (replicate a SP @ [SQ] @ inner @ [SQ] @ replicate b SP) m expand env = Inr inner \<and>
         parseLine (''Z='' @ [SQ] @ ''$A'' @ [SQ]) m expand env = Inr (''Z'', ''$A'')"
proof -
  have "TrimSpaces (replicate a SP @ ([SQ] @ inner @ [SQ]) @ replicate b SP) = [SQ] @ inner @ [SQ]"
    by (rule TrimSpaces_padded) simp_all
  then have "parseValue (replicate a SP @ [SQ] @ inner @ [SQ] @ replicate b SP) m expand env = Inr inner"
    using assms by (simp add: parseValue_def Let_def butlast_append)
  moreover have "parseLine (''Z='' @ [SQ] @ ''$A'' @ [SQ]) m expand env = Inr (''Z'', ''$A'')"
    by (simp add: eval_line)
  ultimately show ?thesis by blast
qed

theorem single_quoted_value_verbatim_witness:
  "NL \<notin> set ''$A'' \<and> parseValue (''  '' @ [SQ] @ ''$A'' @ [SQ] @ '' '') mapA True [''A'' \<mapsto> ''2''] = Inr ''$A''"
  using single_quoted_value_verbatim [of "''$A''" 2 1 mapA True "[''A'' \<mapsto> ''2'']"]
  by (simp add: numeral_2_eq_2)

lemma Split_not_Nil: "Split s c \<noteq> []"
  by (induction s) (auto split: list.splits)

lemma Join_Split: "Join (Split s c) [c] = s"
proof (induction s)
  case Nil
  then show ?case by simp
next
  case (Cons x xs)
  show ?case
  proof (cases "Split xs c")
    case Nil
    then show ?thesis using Split_not_Nil by blast
  next
    case (Cons seg segs)
    with Cons.IH show ?thesis by (cases segs) auto
  qed
qed

lemma Split_no_sep: "c \<notin> set s \<Longrightarrow> Split s c = [s]"
  by (induction s) auto

lemma keepSegments_kept:
  "keepSegments segs flag keep = keep @ keptSegments segs (keep = []) flag"
proof (induction segs arbitrary: flag keep)
  case Nil
  then show ?case by simp
next
  case (Cons segment rest)
  show ?case by (simp add: Cons.IH Let_def)
qed

lemma ditchComments_kept:
  "ditchComments line = Join (keptSegments (Split line HASH) True False) [HASH]"
proof (cases "HASH \<in> set line")
  case True
  then show ?thesis by (simp add: ditchComments_def keepSegments_kept)
next
  case False
  then show ?thesis by (simp add: ditchComments_def Split_no_sep Let_def)
qed

text \<open>
  Claim C2, as amended. The line is split at every \<open>#\<close>; the flag starts false and is
  toggled by a segment with exactly one \<open>'\<close> or exactly one \<open>"\<close> (every occurrence counts,
  after a backslash or not); a segment is kept exactly when it is the first one or the
  flag is true before or after its toggle, so the segment that closes a quote is kept
  too; the kept segments joined with \<open>#\<close> are the stripped line. In \<open>A=x\" # c\<close> the
  quote after the backslash opens the flag and nothing is stripped. The line
  \<open>FOO="bar # baz"\<close> gives the value \<open>bar # baz\<close>.
\<close>

theorem comment_stripping_keeps_closing_segment:
  "ditchComments line = Join (keptSegments (Split line HASH) True False) [HASH] \<and>
   ditchComments (''A=x'' @ [BS, DQ] @ '' # c'') = ''A=x'' @ [BS, DQ] @ '' # c'' \<and>
   parseLine (''FOO='' @ [DQ] @ ''bar # baz'' @ [DQ]) m expand env = Inr (''FOO'', ''bar # baz'')"
proof -
  have "parseLine (''FOO='' @ [DQ] @ ''bar # baz'' @ [DQ]) m expand env = Inr (''FOO'', ''bar # baz'')"
    by (simp add: eval_line expandVariables_no_dollar)
  moreover have "ditchComments (''A=x'' @ [BS, DQ] @ '' # c'') = ''A=x'' @ [BS, DQ] @ '' # c''"
    by (simp add: ditchComments_def Count_def Let_def)
  ultimately show ?thesis using ditchComments_kept by blast
qed

text \<open>
  Claim C2 as stated, with a segment kept only when it is the first, when nothing has
  been kept yet or when the flag is true after the toggle, fails on \<open>FOO="bar # baz"\<close>:
  the rule drops the closing segment, the code keeps it.
\<close>

theorem comment_stripping_counterexample:
  "ditchComments (''FOO='' @ [DQ] @ ''bar # baz'' @ [DQ]) = ''FOO='' @ [DQ] @ ''bar # baz'' @ [DQ] \<and>
   ditchCommentsSpec (''FOO='' @ [DQ] @ ''bar # baz'' @ [DQ]) = ''FOO='' @ [DQ] @ ''bar '' \<and>
   ditchComments (''FOO='' @ [DQ] @ ''bar # baz'' @ [DQ]) \<noteq> ditchCommentsSpec (''FOO='' @ [DQ] @ ''bar # baz'' @ [DQ])"
  by (simp add: ditchComments_def ditchCommentsSpec_def Count_def Let_def)








lemma take6_export:
  assumes "take 6 s = ''export''"
  shows "6 \<le> length s \<and> \<not> reSpace (hd s)"
proof -
  have "length (take 6 s) = length ''export''" using assms by simp
  then have l: "6 \<le> length s" by simp
  then have "hd s = hd (take 6 s)" by (cases s) simp_all
  then show ?thesis using l assms by (simp add: reSpace_def)
qed

















section \<open>Serializing and parsing again\<close>





















lemma Split_segments_free: "seg \<in> set (Split s c) \<Longrightarrow> c \<notin> set seg \<and> set seg \<subseteq> set s"
proof (induction s arbitrary: seg)
  case Nil
  then show ?case by simp
next
  case (Cons x xs)
  show ?case
  proof (cases "Split xs c")
    case Nil
    then show ?thesis using Split_not_Nil by blast
  next
    case C: (Cons a as)
    show ?thesis
    proof (cases "x = c")
      case True
      with Cons show ?thesis by auto
    next
      case False
      with Cons.prems C have "seg = x # a \<or> seg \<in> set as" by simp
      moreover have "c \<notin> set a \<and> set a \<subseteq> set xs" using Cons.IH [of a] C by simp
      moreover have "seg \<in> set as \<Longrightarrow> c \<notin> set seg \<and> set seg \<subseteq> set xs"
        using Cons.IH [of seg] C by simp
      ultimately show ?thesis using False by auto
    qed
  qed
qed

lemma ScanLines_no_newline: "l \<in> set (ScanLines text) \<Longrightarrow> NL \<notin> set l"
proof -
  assume "l \<in> set (ScanLines text)"
  then obtain seg where seg: "seg \<in> set (Split text NL)" "l = dropCR seg"
    by (auto simp: ScanLines_def Let_def split: if_splits dest: in_set_butlastD)
  then have "NL \<notin> set seg" using Split_segments_free by blast
  moreover have "set (dropCR seg) \<subseteq> set seg" by (auto simp: dropCR_def dest: in_set_butlastD)
  ultimately show ?thesis using seg(2) by blast
qed

































end
